theory Spec2Isabelle
  imports Complex_Main
begin

section \<open>Python primitives used by main.py\<close>

text \<open>
  Python integers are unbounded, so they are \<open>int\<close>; strings are \<open>string\<close>. The
  exceptions of the model are the division by zero of line 134, a failure of the
  external LaTeX builder, and the errors of the file system when the driver makes the
  directory and opens its files.
\<close>

datatype error =
  ZeroDivisionError | LatexBuildError
  | FileExistsError | FileNotFoundError | NotADirectoryError | IsADirectoryError

text \<open>\<open>range(n)\<close> and \<open>range(a, b)\<close>: empty when the bound is not above the start.\<close>

definition range_py :: "int \<Rightarrow> int list" where
  "range_py n = map int [0..<nat n]"


text \<open>\<open>str(i)\<close> for an integer: decimal digits, no leading zero, a minus sign below 0.\<close>

definition digit_char :: "nat \<Rightarrow> char" where
  "digit_char d = ''0123456789'' ! d"

fun digits :: "nat \<Rightarrow> string" where
  "digits n = (if n < 10 then [digit_char n] else digits (n div 10) @ [digit_char (n mod 10)])"

declare digits.simps [simp del]

definition str_int :: "int \<Rightarrow> string" where
  "str_int i = (if i < 0 then ''-'' @ digits (nat (- i)) else digits (nat i))"


text \<open>\<open>int(x)\<close> for a float: truncation towards zero.\<close>

definition int_of_float :: "real \<Rightarrow> int" where
  "int_of_float x = (if 0 \<le> x then \<lfloor>x\<rfloor> else \<lceil>x\<rceil>)"

text \<open>
  \<open>a / b\<close> on integers is true division, raising on a zero divisor. The quotient is
  kept exact: for the dividend 15 of line 133 the correctly rounded float and the exact
  quotient have the same truncation, since a quotient \<open>15 / n\<close> that is not whole is at
  least \<open>1 / 15\<close> away from the next integer.
\<close>

definition true_div :: "int \<Rightarrow> int \<Rightarrow> error + real" where
  "true_div a b = (if b = 0 then Inl ZeroDivisionError else Inr (real_of_int a / real_of_int b))"

text \<open>\<open>s * n\<close> on a string: \<open>n\<close> copies, none when \<open>n \<le> 0\<close>.\<close>

definition str_mul :: "string \<Rightarrow> int \<Rightarrow> string" where
  "str_mul s n = concat (replicate (nat n) s)"

text \<open>\<open>sep.join(xs)\<close>.\<close>

fun join_py :: "string \<Rightarrow> string list \<Rightarrow> string" where
  "join_py sep [] = []"
| "join_py sep [x] = x"
| "join_py sep (x # y # ys) = x @ sep @ join_py sep (y # ys)"

section \<open>The outside world: text generator, clock, file system\<close>

text \<open>
  \<open>lorem.sentence()\<close>, \<open>lorem.paragraph()\<close> and \<open>time.time()\<close> are not functions of
  their arguments. The world holds, for each of them, the sequence of results its
  successive calls will return; a call reads the head and shifts the sequence. Nothing
  is assumed about the strings or the times. The file system, below the working
  directory, is a map from the paths of the regular files to their contents, with the
  set of the paths of the directories; a path is the list of its components.
\<close>

record world =
  lorem_sentences :: "nat \<Rightarrow> string"
  lorem_paragraphs :: "nat \<Rightarrow> string"
  clock :: "nat \<Rightarrow> real"
  files :: "string list \<rightharpoonup> string"
  directories :: "string list set"

definition lorem_sentence :: "world \<Rightarrow> string \<times> world" where
  "lorem_sentence w =
     (lorem_sentences w 0, w\<lparr>lorem_sentences := \<lambda>i. lorem_sentences w (Suc i)\<rparr>)"

definition lorem_paragraph :: "world \<Rightarrow> string \<times> world" where
  "lorem_paragraph w =
     (lorem_paragraphs w 0, w\<lparr>lorem_paragraphs := \<lambda>i. lorem_paragraphs w (Suc i)\<rparr>)"

definition time_time :: "world \<Rightarrow> real \<times> world" where
  "time_time w = (clock w 0, w\<lparr>clock := \<lambda>i. clock w (Suc i)\<rparr>)"

section \<open>Table data generator (main.py, lines 93 to 113)\<close>

definition get_text :: "int \<Rightarrow> world \<Rightarrow> string \<times> world" where
  "get_text number_of_sentences w =
     (case lorem_sentence w of (s, w') \<Rightarrow> (str_mul s number_of_sentences, w'))"

definition get_table_title :: "int \<Rightarrow> string \<Rightarrow> string list" where
  "get_table_title number_of_columns title_generic_name =
     map (\<lambda>i. title_generic_name @ str_int i) (range_py number_of_columns)"

text \<open>Lines 107 to 110: the filling of one cell.\<close>

definition cell_filling :: "bool \<Rightarrow> world \<Rightarrow> string \<times> world" where
  "cell_filling filling_is_sentences w =
     (if filling_is_sentences then lorem_sentence w
      else (case time_time w of (t, w') \<Rightarrow> (str_int (int_of_float t), w')))"

text \<open>The inner loop of lines 106 to 111, with \<open>cells_in_row\<close> as accumulator.\<close>

fun for_columns :: "int list \<Rightarrow> bool \<Rightarrow> string list \<Rightarrow> world \<Rightarrow> string list \<times> world" where
  "for_columns [] filling_is_sentences cells_in_row w = (cells_in_row, w)"
| "for_columns (c # cs) filling_is_sentences cells_in_row w =
     (case cell_filling filling_is_sentences w of
        (cell, w') \<Rightarrow> for_columns cs filling_is_sentences (cells_in_row @ [cell]) w')"

text \<open>The outer loop of lines 104 to 112, with \<open>table\<close> as accumulator.\<close>

fun for_rows ::
  "int list \<Rightarrow> int \<Rightarrow> bool \<Rightarrow> string list list \<Rightarrow> world \<Rightarrow> string list list \<times> world" where
  "for_rows [] number_of_columns filling_is_sentences table w = (table, w)"
| "for_rows (r # rs) number_of_columns filling_is_sentences table w =
     (case for_columns (range_py number_of_columns) filling_is_sentences [] w of
        (cells_in_row, w') \<Rightarrow>
          for_rows rs number_of_columns filling_is_sentences (table @ [cells_in_row]) w')"

definition generate_data :: "int \<Rightarrow> int \<Rightarrow> bool \<Rightarrow> world \<Rightarrow> string list list \<times> world" where
  "generate_data number_of_rows number_of_columns filling_is_sentences w =
     for_rows (range_py number_of_rows) number_of_columns filling_is_sentences [] w"

text \<open>
  Reading a decimal numeral back: the digit strings are the strings \<open>int(s)\<close> reads as
  a non-negative integer without sign, space or underscore.
\<close>

definition digit_val :: "char \<Rightarrow> nat option" where
  "digit_val c = map_of (zip ''0123456789'' [0, 1, 2, 3, 4, 5, 6, 7, 8, 9]) c"

fun parse_digits :: "nat \<Rightarrow> string \<Rightarrow> nat option" where
  "parse_digits acc [] = Some acc"
| "parse_digits acc (c # cs) =
     (case digit_val c of None \<Rightarrow> None | Some d \<Rightarrow> parse_digits (10 * acc + d) cs)"

definition parse_nat :: "string \<Rightarrow> nat option" where
  "parse_nat s = (if s = [] then None else parse_digits 0 s)"

text \<open>A world for concrete runs: two distinct sentences, a clock that advances.\<close>

definition demo_world :: world where
  "demo_world =
     \<lparr>lorem_sentences = (\<lambda>i. if i = 0 then ''Lorem ipsum.'' else ''Dolor sit amet.''),
      lorem_paragraphs = (\<lambda>i. ''Consectetur adipiscing elit. Sed do eiusmod.''),
      clock = (\<lambda>i. 1700000000 + real i / 2),
      files = Map.empty,
      directories = {}\<rparr>"

section \<open>Markup renderer (main.py, lines 22 to 68, 83 to 90 and 116 to 147)\<close>

text \<open>
  A backslash cannot stand inside a string literal here, so it is written \<open>bsl\<close>; a
  line feed is written as the symbol for it.
\<close>

abbreviation bsl :: string where
  "bsl \<equiv> [CHR 0x5C]"

definition COLUMN_DELIMITER :: string where
  "COLUMN_DELIMITER = ''|''"

definition COLUMN_SEPARATOR :: string where
  "COLUMN_SEPARATOR = ''&''"

definition NEW_ROW_SYMBOL :: string where
  "NEW_ROW_SYMBOL = bsl @ bsl"

definition TEXT_IN_CELL_ORIENTATION :: string where
  "TEXT_IN_CELL_ORIENTATION = ''l''"

definition TABLE_HORIZONTAL_LINE :: string where
  "TABLE_HORIZONTAL_LINE = bsl @ ''hline''"

definition TEXT_BEFORE_TABLE :: string where
  "TEXT_BEFORE_TABLE = ''_TEXT_BEFORE_TABLE''"

definition TEXT_AFTER_TABLE :: string where
  "TEXT_AFTER_TABLE = ''_TEXT_AFTER_TABLE''"

definition TABLE :: string where
  "TABLE = ''_THE_TABLE_''"

definition TABLE_SCHEMA :: string where
  "TABLE_SCHEMA = ''_TABLE_SCHEMA''"

definition TABLE_ROWS_LIST :: string where
  "TABLE_ROWS_LIST = ''_TABLE_ROWS_LIST''"

definition TABLE_TITLE :: string where
  "TABLE_TITLE = ''_TABLE_TITLE''"


definition TEX_DOCUMENT_PATTERN :: string where
  "TEX_DOCUMENT_PATTERN =
     bsl @ ''documentclass{article}''
     @ ''\<newline>''
     @ bsl @ ''usepackage[a4paper, portrait, margin=1in]{geometry}''
     @ ''\<newline>''
     @ bsl @ ''usepackage[utf8x]{inputenc}''
     @ ''\<newline>''
     @ bsl @ ''usepackage{tabularx}''
     @ ''\<newline>''
     @ bsl @ ''begin{document}''
     @ ''\<newline>''
     @ TEXT_BEFORE_TABLE
     @ ''\<newline>''
     @ ''\<newline>''
     @ TABLE
     @ ''\<newline>''
     @ TEXT_AFTER_TABLE
     @ ''\<newline>''
     @ bsl @ ''end{document}''"

definition TEX_TABLE_PATTERN :: string where
  "TEX_TABLE_PATTERN =
     bsl @ ''begin{tabular}{''
     @ TABLE_SCHEMA
     @ ''}''
     @ ''\<newline>''
     @ bsl @ ''hline''
     @ ''\<newline>'' @ TABLE_TITLE
     @ bsl @ bsl @ '' '' @ bsl @ ''hline''
     @ ''\<newline>''
     @ TABLE_ROWS_LIST @ '' '' @ bsl @ bsl @ '' '' @ bsl @ ''hline''
     @ ''\<newline>''
     @ bsl @ ''end{tabular}''
     @ ''\<newline>''"

definition get_schema :: "int \<Rightarrow> string \<Rightarrow> string" where
  "get_schema number_of_columns text_position =
     str_mul (''|'' @ text_position) number_of_columns @ ''|''"

text \<open>
  \<open>s.replace(old, new)\<close>: the occurrences of \<open>old\<close> in \<open>s\<close> are found from the left,
  without overlap, and the text put in is not searched again. For an empty \<open>old\<close>,
  \<open>new\<close> goes before every character and at the end.
\<close>

function replace_scan :: "string \<Rightarrow> string \<Rightarrow> string \<Rightarrow> string" where
  "replace_scan old new [] = []"
| "replace_scan old new (c # cs) =
     (if old \<noteq> [] \<and> take (length old) (c # cs) = old
      then new @ replace_scan old new (drop (length old) (c # cs))
      else c # replace_scan old new cs)"
  by pat_completeness auto
termination
  by (relation "measure (\<lambda>(old, new, s). length s)") (auto simp: neq_Nil_conv)

declare replace_scan.simps(2) [simp del]

definition replace :: "string \<Rightarrow> string \<Rightarrow> string \<Rightarrow> string" where
  "replace old new s =
     (if old = [] then new @ concat (map (\<lambda>c. c # new) s) else replace_scan old new s)"

text \<open>
  Lines 132 to 135. \<open>table_width_cm / number_of_columns\<close> raises on zero columns;
  \<open>int\<close> truncates the quotient.
\<close>

definition table_width_cm :: int where
  "table_width_cm = 15"

definition cell_width :: "int \<Rightarrow> error + int" where
  "cell_width number_of_columns =
     (case true_div table_width_cm number_of_columns of
        Inl e \<Rightarrow> Inl e
      | Inr q \<Rightarrow> Inr (int_of_float q))"

definition tex_schema :: "int \<Rightarrow> error + string" where
  "tex_schema number_of_columns =
     (case cell_width number_of_columns of
        Inl e \<Rightarrow> Inl e
      | Inr width \<Rightarrow> Inr (get_schema number_of_columns (''p{'' @ str_int width @ ''cm}'')))"

text \<open>Lines 122 to 130: the header line, the row lines and their join.\<close>

definition column_join :: string where
  "column_join = '' '' @ COLUMN_SEPARATOR @ '' ''"

definition row_join :: string where
  "row_join = '' '' @ NEW_ROW_SYMBOL @ '' '' @ TABLE_HORIZONTAL_LINE @ ''\<newline>''"

definition tex_rows_of :: "string list list \<Rightarrow> string" where
  "tex_rows_of table_data = join_py row_join (map (join_py column_join) table_data)"

text \<open>Lines 137 to 140 and 142 to 145: the two chains of substitutions.\<close>

definition tex_table_of :: "string \<Rightarrow> string \<Rightarrow> string \<Rightarrow> string" where
  "tex_table_of tex_rows schema tex_table_title =
     replace TABLE_TITLE tex_table_title
       (replace TABLE_SCHEMA schema
         (replace TABLE_ROWS_LIST tex_rows TEX_TABLE_PATTERN))"

definition tex_document_of :: "string \<Rightarrow> string \<Rightarrow> string \<Rightarrow> string" where
  "tex_document_of text_before tex_table text_after =
     replace TEXT_AFTER_TABLE text_after
       (replace TABLE tex_table
         (replace TEXT_BEFORE_TABLE text_before TEX_DOCUMENT_PATTERN))"

text \<open>
  \<open>generate_tex_code\<close>: the two paragraphs are drawn first, the exception of line 134
  leaves the function before any substitution.
\<close>

definition generate_tex_code ::
  "string list list \<Rightarrow> string list \<Rightarrow> world \<Rightarrow> error + (string \<times> world)" where
  "generate_tex_code table_data table_title_data w =
     (case lorem_paragraph w of (text_before, w1) \<Rightarrow>
       (case lorem_paragraph w1 of (text_after, w2) \<Rightarrow>
         (let number_of_columns = int (length table_title_data);
              tex_table_title = join_py column_join table_title_data;
              tex_rows = tex_rows_of table_data
          in (case tex_schema number_of_columns of
                Inl e \<Rightarrow> Inl e
              | Inr schema \<Rightarrow>
                  (let tex_table = tex_table_of tex_rows schema tex_table_title;
                       tex_document = tex_document_of text_before tex_table text_after
                   in Inr (tex_document, w2))))))"

text \<open>
  What the substitutions that run after the rows are in place (schema, title, text
  after the table) make of one row line. A line without a placeholder is left as it is.
\<close>

definition rendered_line :: "string \<Rightarrow> string \<Rightarrow> string \<Rightarrow> string \<Rightarrow> string" where
  "rendered_line schema tex_table_title text_after line =
     replace TEXT_AFTER_TABLE text_after
       (replace TABLE_TITLE tex_table_title
         (replace TABLE_SCHEMA schema line))"

section \<open>The CSV file (main.py, lines 172 to 176)\<close>

text \<open>
  The driver writes the title row and the rows of the table with \<open>csv.writer\<close> of the
  Python standard library, whose code is not part of the repository. The writer and the
  matching reader are modelled from the dialect the driver and the specification name:
  comma as delimiter, \<open>|\<close> as quote character, minimal quoting, a quote inside a
  quoted field doubled, no escape character, records ended by carriage return and line
  feed.
\<close>

abbreviation CR :: char where "CR \<equiv> CHR 0x0D"
abbreviation LF :: char where "LF \<equiv> CHR 0x0A"

text \<open>
  Modelled from the spec: \<open>csv.writer\<close> with minimal quoting is missing. A field is
  quoted only when it has to be: when it contains the delimiter, the quote character or a
  character of the record terminator.
\<close>

definition csv_needs_quotes :: "string \<Rightarrow> bool" where
  "csv_needs_quotes field = list_ex (\<lambda>c. c = CHR '','' \<or> c = CHR ''|'' \<or> c = CR \<or> c = LF) field"

fun csv_double_quotes :: "string \<Rightarrow> string" where
  "csv_double_quotes [] = []"
| "csv_double_quotes (c # cs) =
     (if c = CHR ''|'' then CHR ''|'' # CHR ''|'' # csv_double_quotes cs
      else c # csv_double_quotes cs)"

definition csv_quoted :: "string \<Rightarrow> string" where
  "csv_quoted field = ''|'' @ csv_double_quotes field @ ''|''"

definition csv_field :: "string \<Rightarrow> string" where
  "csv_field field = (if csv_needs_quotes field then csv_quoted field else field)"

text \<open>
  Modelled from the spec: \<open>writerow\<close> is missing. The fields are joined by commas and
  the record is ended; a row that is one empty field is written as an empty quoted field,
  so that it differs from the row without fields.
\<close>

definition csv_writerow :: "string list \<Rightarrow> string" where
  "csv_writerow row =
     (if row = [[]] then csv_quoted [] else join_py '','' (map csv_field row)) @ [CR, LF]"

definition csv_file :: "string list \<Rightarrow> string list list \<Rightarrow> string" where
  "csv_file table_title table_data =
     csv_writerow table_title @ concat (map csv_writerow table_data)"

text \<open>
  Modelled from the spec: \<open>csv.reader\<close> is missing. It is the character automaton of
  the reader for the same dialect, without the states of the escape character. The input
  of a step is a character or the end of a line. A quote that follows a closing quote
  inside a quoted field is one quote of the field; a line end inside a quoted field
  belongs to the field.
\<close>

datatype csv_state =
  START_RECORD | START_FIELD | IN_FIELD | IN_QUOTED_FIELD | QUOTE_IN_QUOTED_FIELD | EAT_CRNL

record parser =
  parser_state :: csv_state
  parser_fields :: "string list"
  parser_field :: string

datatype event = Ch char | EOL

definition parse_reset :: parser where
  "parse_reset = \<lparr>parser_state = START_RECORD, parser_fields = [], parser_field = []\<rparr>"

definition parse_save_field :: "parser \<Rightarrow> parser" where
  "parse_save_field p = p\<lparr>parser_fields := parser_fields p @ [parser_field p], parser_field := []\<rparr>"

definition parse_add_char :: "parser \<Rightarrow> char \<Rightarrow> parser" where
  "parse_add_char p c = p\<lparr>parser_field := parser_field p @ [c]\<rparr>"

definition end_of_field :: "parser \<Rightarrow> event \<Rightarrow> parser" where
  "end_of_field p e =
     (parse_save_field p)\<lparr>parser_state := (if e = EOL then START_RECORD else EAT_CRNL)\<rparr>"

fun parse_process_char :: "parser \<Rightarrow> event \<Rightarrow> parser option" where
  "parse_process_char p e =
     (case parser_state p of
        START_RECORD \<Rightarrow>
          (if e = EOL then Some p
           else if e = Ch LF \<or> e = Ch CR then Some (p\<lparr>parser_state := EAT_CRNL\<rparr>)
           else if e = Ch (CHR ''|'') then Some (p\<lparr>parser_state := IN_QUOTED_FIELD\<rparr>)
           else if e = Ch (CHR '','') then Some ((parse_save_field p)\<lparr>parser_state := START_FIELD\<rparr>)
           else (case e of Ch c \<Rightarrow> Some ((parse_add_char p c)\<lparr>parser_state := IN_FIELD\<rparr>)
                 | EOL \<Rightarrow> Some p))
      | START_FIELD \<Rightarrow>
          (if e = Ch LF \<or> e = Ch CR \<or> e = EOL then Some (end_of_field p e)
           else if e = Ch (CHR ''|'') then Some (p\<lparr>parser_state := IN_QUOTED_FIELD\<rparr>)
           else if e = Ch (CHR '','') then Some (parse_save_field p)
           else (case e of Ch c \<Rightarrow> Some ((parse_add_char p c)\<lparr>parser_state := IN_FIELD\<rparr>)
                 | EOL \<Rightarrow> Some p))
      | IN_FIELD \<Rightarrow>
          (if e = Ch LF \<or> e = Ch CR \<or> e = EOL then Some (end_of_field p e)
           else if e = Ch (CHR '','') then Some ((parse_save_field p)\<lparr>parser_state := START_FIELD\<rparr>)
           else (case e of Ch c \<Rightarrow> Some (parse_add_char p c) | EOL \<Rightarrow> Some p))
      | IN_QUOTED_FIELD \<Rightarrow>
          (case e of
             EOL \<Rightarrow> Some p
           | Ch c \<Rightarrow>
               if c = CHR ''|'' then Some (p\<lparr>parser_state := QUOTE_IN_QUOTED_FIELD\<rparr>)
               else Some (parse_add_char p c))
      | QUOTE_IN_QUOTED_FIELD \<Rightarrow>
          (if e = Ch (CHR ''|'') then Some ((parse_add_char p (CHR ''|''))\<lparr>parser_state := IN_QUOTED_FIELD\<rparr>)
           else if e = Ch (CHR '','') then Some ((parse_save_field p)\<lparr>parser_state := START_FIELD\<rparr>)
           else if e = Ch LF \<or> e = Ch CR \<or> e = EOL then Some (end_of_field p e)
           else (case e of Ch c \<Rightarrow> Some ((parse_add_char p c)\<lparr>parser_state := IN_FIELD\<rparr>)
                 | EOL \<Rightarrow> Some p))
      | EAT_CRNL \<Rightarrow>
          (if e = Ch LF \<or> e = Ch CR then Some p
           else if e = EOL then Some (p\<lparr>parser_state := START_RECORD\<rparr>)
           else None))"

text \<open>
  Modelled from the spec: the file is read line by line, a line ending after a line
  feed, after a carriage return followed by a line feed, or after a carriage return
  alone, and the line end characters are handed to the reader unchanged (the file opened
  with \<open>newline=''\<close>). The reader is fed the characters of each line and then an end
  of line. \<open>started\<close> tells whether the current line has a character already.
\<close>

fun line_events :: "bool \<Rightarrow> string \<Rightarrow> event list" where
  "line_events started [] = (if started then [EOL] else [])"
| "line_events started (c # cs) =
     (if c = LF then Ch c # EOL # line_events False cs
      else if c = CR then
        (case cs of
           [] \<Rightarrow> [Ch c, EOL]
         | d # ds \<Rightarrow>
             if d = LF then Ch c # Ch d # EOL # line_events False ds
             else Ch c # EOL # line_events False cs)
      else Ch c # line_events True cs)"

text \<open>
  Modelled from the spec: the loop of the reader over the lines. A record is complete when
  the automaton is back at the start of a record after the end of a line; the input
  ending inside a record closes that record. \<open>None\<close> is the reader's error.
\<close>

fun reader_rows :: "parser \<Rightarrow> event list \<Rightarrow> string list list option" where
  "reader_rows p [] =
     (if parser_field p \<noteq> [] \<or> parser_state p = IN_QUOTED_FIELD
      then Some [parser_fields (parse_save_field p)] else Some [])"
| "reader_rows p (e # es) =
     (case parse_process_char p e of
        None \<Rightarrow> None
      | Some p' \<Rightarrow>
          if e = EOL \<and> parser_state p' = START_RECORD
          then (case reader_rows parse_reset es of
                  None \<Rightarrow> None
                | Some rows \<Rightarrow> Some (parser_fields p' # rows))
          else reader_rows p' es)"

definition csv_parse :: "string \<Rightarrow> string list list option" where
  "csv_parse text = reader_rows parse_reset (line_events False text)"

section \<open>The driver (main.py, lines 16 to 19 and 150 to 176)\<close>



















section \<open>Facts about the primitives\<close>

lemma digit_char_mem: "d < 10 \<Longrightarrow> digit_char d \<in> set ''0123456789''"
  unfolding digit_char_def using nth_mem [of d "''0123456789''"] by simp

lemma digit_val_char: "d < 10 \<Longrightarrow> digit_val (digit_char d) = Some d"
proof -
  assume "d < 10"
  then have "d \<in> {0, 1, 2, 3, 4, 5, 6, 7, 8, 9}" by auto
  then show ?thesis by (auto simp: digit_val_def digit_char_def)
qed

lemma parse_digits_append:
  "parse_digits acc (xs @ ys) =
     (case parse_digits acc xs of None \<Rightarrow> None | Some a \<Rightarrow> parse_digits a ys)"
  by (induction xs arbitrary: acc) (auto split: option.splits)

lemma parse_digits_digits: "parse_digits 0 (digits n) = Some n"
proof (induction n rule: digits.induct)
  case (1 n)
  show ?case
  proof (cases "n < 10")
    case True
    then show ?thesis by (subst digits.simps) (simp add: digit_val_char)
  next
    case False
    then have "parse_digits 0 (digits (n div 10)) = Some (n div 10)" using 1 by simp
    moreover have "n mod 10 < 10" by simp
    ultimately show ?thesis using False
      by (subst digits.simps) (simp add: parse_digits_append digit_val_char)
  qed
qed

lemma digits_nonempty: "digits n \<noteq> []"
  by (subst digits.simps) simp

lemma set_digits: "set (digits n) \<subseteq> set ''0123456789''"
proof (induction n rule: digits.induct)
  case (1 n)
  show ?case
  proof (cases "n < 10")
    case True
    then show ?thesis using digit_char_mem [of n] by (subst digits.simps) simp
  next
    case False
    then have "set (digits (n div 10)) \<subseteq> set ''0123456789''" using 1 by simp
    moreover have "digit_char (n mod 10) \<in> set ''0123456789''" by (rule digit_char_mem) simp
    ultimately show ?thesis using False by (subst digits.simps) simp
  qed
qed

lemma parse_nat_str_int: "0 \<le> i \<Longrightarrow> parse_nat (str_int i) = Some (nat i)"
  by (simp add: parse_nat_def str_int_def digits_nonempty parse_digits_digits)

lemma int_of_float_nonneg: "0 \<le> x \<Longrightarrow> 0 \<le> int_of_float x"
  by (simp add: int_of_float_def)

section \<open>The shape of the generated table\<close>

lemma for_columns_length:
  "for_columns cs f acc w = (cells, w') \<Longrightarrow> length cells = length acc + length cs"
  by (induction cs arbitrary: acc w) (auto split: prod.splits)

lemma for_rows_shape:
  "for_rows rs n f acc w = (table, w') \<Longrightarrow>
   length table = length acc + length rs \<and>
   (\<forall>row \<in> set table. row \<in> set acc \<or> length row = nat n)"
proof (induction rs arbitrary: acc w)
  case Nil
  then show ?case by simp
next
  case (Cons r rs)
  obtain cells w1 where c: "for_columns (range_py n) f [] w = (cells, w1)"
    by (cases "for_columns (range_py n) f [] w")
  then have len: "length cells = nat n"
    using for_columns_length [OF c] by (simp add: range_py_def)
  from Cons.prems c have "for_rows rs n f (acc @ [cells]) w1 = (table, w')" by simp
  from Cons.IH [OF this] len show ?case by auto
qed

lemma generate_data_length: "length (fst (generate_data r c f w)) = nat r"
proof -
  obtain table w' where g: "for_rows (range_py r) c f [] w = (table, w')"
    by (cases "for_rows (range_py r) c f [] w")
  from for_rows_shape [OF g] have "length table = nat r"
    by (simp add: range_py_def)
  then show ?thesis
    by (simp add: generate_data_def g)
qed

lemma generate_data_row_length:
  "row \<in> set (fst (generate_data r c f w)) \<Longrightarrow> length row = nat c"
proof -
  assume a: "row \<in> set (fst (generate_data r c f w))"
  obtain table w' where g: "for_rows (range_py r) c f [] w = (table, w')"
    by (cases "for_rows (range_py r) c f [] w")
  from for_rows_shape [OF g] a show ?thesis
    by (simp add: generate_data_def g)
qed

text \<open>
  C1. For all counts \<open>row_count \<ge> 0\<close> and \<open>column_count \<ge> 0\<close> and either filling
  mode, in any world, the table returned by \<open>generate_data\<close> has exactly \<open>row_count\<close>
  rows and each row has exactly \<open>column_count\<close> cells (Python's \<open>len\<close> of the table and
  of every row).
\<close>

theorem generate_data_shape:
  assumes "0 \<le> row_count" and "0 \<le> column_count"
  shows "int (length (fst (generate_data row_count column_count filling_is_sentences w))) = row_count
       \<and> (\<forall>row \<in> set (fst (generate_data row_count column_count filling_is_sentences w)).
            int (length row) = column_count)"
  using assms by (simp add: generate_data_length generate_data_row_length)

theorem generate_data_shape_witness:
  "(0::int) \<le> 2 \<and> (0::int) \<le> 3
   \<and> int (length (fst (generate_data 2 3 True demo_world))) = 2
   \<and> list_all (\<lambda>row. int (length row) = 3) (fst (generate_data 2 3 True demo_world))
   \<and> fst (generate_data 2 3 True demo_world) \<noteq> []"
proof -
  have h: "int (length (fst (generate_data 2 3 True demo_world))) = 2
       \<and> (\<forall>row \<in> set (fst (generate_data 2 3 True demo_world)). int (length row) = 3)"
    using generate_data_shape [of 2 3 True demo_world] by simp
  then have "fst (generate_data 2 3 True demo_world) \<noteq> []" by auto
  with h show ?thesis by (simp add: list_all_iff)
qed

section \<open>Zero rows, zero columns\<close>

lemma for_rows_no_columns:
  "for_rows rs 0 f acc w = (acc @ replicate (length rs) [], w)"
proof (induction rs arbitrary: acc)
  case Nil
  show ?case by simp
next
  case (Cons r rs)
  show ?case by (simp add: range_py_def Cons.IH replicate_app_Cons_same)
qed

text \<open>
  C7, as the claim states it, fails: with three rows and zero columns the result is
  not the empty table but three empty rows.
\<close>

theorem generate_data_zero_columns_counterexample:
  "\<not> ((3::int) = 0 \<or> (0::int) = 0 \<longrightarrow> fst (generate_data 3 0 True demo_world) = [])"
  by (simp add: generate_data_def for_rows_no_columns range_py_def)

text \<open>
  C7, amended. \<open>generate_data\<close> has no error result for any counts. With
  \<open>number_of_rows = 0\<close> the table is empty; with \<open>number_of_columns = 0\<close> it has
  \<open>number_of_rows\<close> rows, each of them the empty row, and the world is unchanged.
\<close>

theorem generate_data_zero:
  "fst (generate_data 0 number_of_columns filling_is_sentences w) = []
   \<and> generate_data number_of_rows 0 filling_is_sentences w =
       (replicate (nat number_of_rows) [], w)"
  by (simp add: generate_data_def for_rows_no_columns range_py_def)

section \<open>The title row\<close>

text \<open>
  C3. \<open>get_table_title n\<close>, with the default base name, is the list of the strings
  \<open>title\<close> followed by the decimal numeral of \<open>i\<close>, for \<open>i\<close> from 0 to \<open>n - 1\<close> in this
  order; it has \<open>n\<close> entries (none for \<open>n \<le> 0\<close>). It takes no filling mode and reads
  nothing of the world, so it is a function of \<open>n\<close> alone. For \<open>n = 3\<close> it is title0,
  title1, title2 and the last of twelve titles is title11.
\<close>

theorem get_table_title_spec:
  "get_table_title n ''title'' = map (\<lambda>i. ''title'' @ str_int (int i)) [0..<nat n]
   \<and> length (get_table_title n ''title'') = nat n
   \<and> get_table_title 3 ''title'' = [''title0'', ''title1'', ''title2'']
   \<and> last (get_table_title 12 ''title'') = ''title11''"
proof -
  have "get_table_title 3 ''title'' = [''title0'', ''title1'', ''title2'']"
    by code_simp
  moreover have "last (get_table_title 12 ''title'') = ''title11''"
    by code_simp
  ultimately show ?thesis
    by (simp add: get_table_title_def range_py_def comp_def)
qed

section \<open>Repeated text\<close>

text \<open>
  C5, as the claim states it, fails: in a world whose first two sentences differ,
  \<open>get_text 2\<close> is not the concatenation of the first two sentences.
\<close>

theorem get_text_independent_counterexample:
  "fst (get_text 2 demo_world)
     \<noteq> concat (map (lorem_sentences demo_world) [0..<nat 2])"
  by (simp add: get_text_def lorem_sentence_def str_mul_def demo_world_def
      numeral_2_eq_2)

text \<open>
  C5, amended. \<open>get_text n\<close> calls the sentence generator once and returns that one
  sentence repeated \<open>n\<close> times with no separator (the empty string for \<open>n \<le> 0\<close>); the
  generator has advanced by one sentence.
\<close>

theorem get_text_repeats_one_sentence:
  "get_text n w =
     (concat (replicate (nat n) (lorem_sentences w 0)),
      w\<lparr>lorem_sentences := \<lambda>i. lorem_sentences w (Suc i)\<rparr>)"
  by (simp add: get_text_def lorem_sentence_def str_mul_def)

section \<open>Timestamp cells\<close>

lemma for_columns_timestamps:
  "for_columns cs False acc w = (cells, w') \<Longrightarrow>
   (\<exists>m. \<forall>i. clock w' i = clock w (i + m)) \<and>
   (\<forall>cell \<in> set cells. cell \<in> set acc \<or> (\<exists>k. cell = str_int (int_of_float (clock w k))))"
proof (induction cs arbitrary: acc w)
  case Nil
  then have "\<forall>i. clock w' i = clock w (i + 0)" and "cells = acc" by simp_all
  then show ?case by blast
next
  case (Cons c cs)
  let ?w1 = "w\<lparr>clock := \<lambda>i. clock w (Suc i)\<rparr>"
  let ?cell = "str_int (int_of_float (clock w 0))"
  from Cons.prems have "for_columns cs False (acc @ [?cell]) ?w1 = (cells, w')"
    by (simp add: cell_filling_def time_time_def)
  from Cons.IH [OF this] obtain m where
    m: "\<forall>i. clock w' i = clock ?w1 (i + m)" and
    c: "\<forall>cell \<in> set cells. cell \<in> set (acc @ [?cell])
          \<or> (\<exists>k. cell = str_int (int_of_float (clock ?w1 k)))"
    by blast
  from m have "\<forall>i. clock w' i = clock w (i + Suc m)" by simp
  then have "\<exists>m. \<forall>i. clock w' i = clock w (i + m)" by blast
  moreover have "\<forall>cell \<in> set cells. cell \<in> set acc
      \<or> (\<exists>k. cell = str_int (int_of_float (clock w k)))"
  proof
    fix cell assume "cell \<in> set cells"
    with c have "cell \<in> set acc \<or> cell = ?cell
        \<or> (\<exists>k. cell = str_int (int_of_float (clock w (Suc k))))" by auto
    then show "cell \<in> set acc \<or> (\<exists>k. cell = str_int (int_of_float (clock w k)))" by blast
  qed
  ultimately show ?case by blast
qed

lemma for_rows_timestamps:
  "for_rows rs n False acc w = (table, w') \<Longrightarrow>
   (\<forall>row \<in> set table. row \<in> set acc
      \<or> (\<forall>cell \<in> set row. \<exists>k. cell = str_int (int_of_float (clock w k))))"
proof (induction rs arbitrary: acc w)
  case Nil
  then show ?case by simp
next
  case (Cons r rs)
  obtain cells w1 where c: "for_columns (range_py n) False [] w = (cells, w1)"
    by (cases "for_columns (range_py n) False [] w")
  from for_columns_timestamps [OF c] obtain m where
    m: "\<forall>i. clock w1 i = clock w (i + m)" and
    cs: "\<forall>cell \<in> set cells. \<exists>k. cell = str_int (int_of_float (clock w k))"
    by auto
  from Cons.prems c have "for_rows rs n False (acc @ [cells]) w1 = (table, w')" by simp
  from Cons.IH [OF this] have ih: "\<forall>row \<in> set table. row \<in> set (acc @ [cells])
      \<or> (\<forall>cell \<in> set row. \<exists>k. cell = str_int (int_of_float (clock w1 k)))" .
  show ?case
  proof
    fix row assume "row \<in> set table"
    with ih have "row \<in> set acc \<or> row = cells
        \<or> (\<forall>cell \<in> set row. \<exists>k. cell = str_int (int_of_float (clock w1 k)))" by auto
    moreover have "(\<forall>cell \<in> set row. \<exists>k. cell = str_int (int_of_float (clock w1 k)))
        \<Longrightarrow> (\<forall>cell \<in> set row. \<exists>k. cell = str_int (int_of_float (clock w k)))"
      using m by metis
    ultimately show "row \<in> set acc
        \<or> (\<forall>cell \<in> set row. \<exists>k. cell = str_int (int_of_float (clock w k)))"
      using cs by blast
  qed
qed

text \<open>
  C9. In timestamp mode, if every reading of the clock is non-negative, every cell of
  the generated table is the decimal numeral of a clock reading truncated to whole
  seconds, and reading that numeral back gives this non-negative integer.
\<close>

theorem timestamp_cells_parse:
  assumes "\<forall>i. 0 \<le> clock w i"
  shows "\<forall>row \<in> set (fst (generate_data number_of_rows number_of_columns False w)).
           \<forall>cell \<in> set row.
             \<exists>k. cell = str_int (int_of_float (clock w k))
               \<and> 0 \<le> int_of_float (clock w k)
               \<and> parse_nat cell = Some (nat (int_of_float (clock w k)))"
proof (intro ballI)
  fix row cell
  assume r: "row \<in> set (fst (generate_data number_of_rows number_of_columns False w))"
    and c: "cell \<in> set row"
  obtain table w' where g: "for_rows (range_py number_of_rows) number_of_columns False [] w = (table, w')"
    by (cases "for_rows (range_py number_of_rows) number_of_columns False [] w")
  from r g have "row \<in> set table" by (simp add: generate_data_def)
  with for_rows_timestamps [OF g] c obtain k where
    k: "cell = str_int (int_of_float (clock w k))" by auto
  from assms have "0 \<le> int_of_float (clock w k)" by (simp add: int_of_float_nonneg)
  with k show "\<exists>k. cell = str_int (int_of_float (clock w k))
               \<and> 0 \<le> int_of_float (clock w k)
               \<and> parse_nat cell = Some (nat (int_of_float (clock w k)))"
    using parse_nat_str_int by blast
qed

theorem timestamp_cells_parse_witness:
  "(\<forall>i. 0 \<le> clock demo_world i)
   \<and> list_all (list_all (\<lambda>cell.
          \<exists>k. cell = str_int (int_of_float (clock demo_world k))
            \<and> 0 \<le> int_of_float (clock demo_world k)
            \<and> parse_nat cell = Some (nat (int_of_float (clock demo_world k)))))
        (fst (generate_data 2 3 False demo_world))
   \<and> map length (fst (generate_data 2 3 False demo_world)) = [3, 3]"
proof -
  have h: "\<forall>i. 0 \<le> clock demo_world i" by (simp add: demo_world_def)
  have "length (fst (generate_data 2 3 False demo_world)) = 2"
    by (simp add: generate_data_length)
  then obtain r1 r2 where t: "fst (generate_data 2 3 False demo_world) = [r1, r2]"
    by (auto simp: length_Suc_conv numeral_2_eq_2)
  then have "length r1 = 3" and "length r2 = 3"
    using generate_data_row_length [of r1 2 3 False demo_world]
      generate_data_row_length [of r2 2 3 False demo_world] by simp_all
  with t have "map length (fst (generate_data 2 3 False demo_world)) = [3, 3]" by simp
  then show ?thesis
    using h timestamp_cells_parse [OF h, of 2 3] by (simp add: list_all_iff)
qed

section \<open>Substitution and the rendered document\<close>

lemma replace_scan_skip:
  "c \<notin> set old \<Longrightarrow> replace_scan old new (c # cs) = c # replace_scan old new cs"
proof -
  assume a: "c \<notin> set old"
  have "take (length old) (c # cs) \<noteq> old \<or> old = []"
  proof (cases old)
    case Nil then show ?thesis by simp
  next
    case (Cons o1 os)
    with a have "o1 \<noteq> c" by auto
    with Cons show ?thesis by simp
  qed
  then show ?thesis by (auto simp: replace_scan.simps(2))
qed

lemma replace_scan_skips:
  "set pre \<inter> set old = {} \<Longrightarrow> replace_scan old new (pre @ s) = pre @ replace_scan old new s"
  by (induction pre) (auto simp: replace_scan_skip)

lemma replace_scan_hit:
  "old \<noteq> [] \<Longrightarrow> replace_scan old new (old @ s) = new @ replace_scan old new s"
  by (cases old) (simp_all add: replace_scan.simps(2))

lemma replace_scan_absent:
  "set s \<inter> set old = {} \<Longrightarrow> replace_scan old new s = s"
  using replace_scan_skips [of s old new "[]"] by simp

lemma take_old_append:
  assumes "take (length old) s = old"
  shows "length old \<le> length s"
    and "take (length old) (s @ t) = old"
    and "drop (length old) (s @ t) = drop (length old) s @ t"
proof -
  from assms have "length (take (length old) s) = length old" by simp
  then show len: "length old \<le> length s" by simp
  from len assms show "take (length old) (s @ t) = old" by simp
  from len show "drop (length old) (s @ t) = drop (length old) s @ t" by simp
qed

lemma take_old_before_sep:
  assumes "take (length old) (s @ c # t) = old" and "c \<notin> set old"
  shows "take (length old) s = old"
proof (cases "length old \<le> length s")
  case True
  with assms(1) show ?thesis by simp
next
  case False
  then have lt: "length s < length old" by simp
  then have "take (length old) (s @ c # t) ! length s = c"
    by (simp add: nth_append)
  with assms(1) have "old ! length s = c" by simp
  with lt have "c \<in> set old" using nth_mem by metis
  with assms(2) show ?thesis by simp
qed

lemma replace_scan_sep:
  "c \<notin> set old \<Longrightarrow>
   replace_scan old new (a @ c # b) = replace_scan old new a @ c # replace_scan old new b"
proof (induction old new a rule: replace_scan.induct)
  case (1 old new)
  then show ?case by (simp add: replace_scan_skip)
next
  case (2 old new x xs)
  note notin = \<open>c \<notin> set old\<close>
  show ?case
  proof (cases "old \<noteq> [] \<and> take (length old) (x # xs) = old")
    case True
    then have t: "take (length old) (x # xs) = old" by simp
    have "replace_scan old new (x # (xs @ c # b)) =
        new @ replace_scan old new (drop (length old) (x # xs) @ c # b)"
      using True take_old_append(2,3) [OF t, of "c # b"]
      by (subst replace_scan.simps(2)) simp
    also have "\<dots> = new @ replace_scan old new (drop (length old) (x # xs)) @ c # replace_scan old new b"
      using 2(1) [OF True notin] by simp
    also have "\<dots> = replace_scan old new (x # xs) @ c # replace_scan old new b"
      using True by (simp add: replace_scan.simps(2) [of old new x xs])
    finally show ?thesis by simp
  next
    case False
    have f2: "\<not> (old \<noteq> [] \<and> take (length old) (x # (xs @ c # b)) = old)"
      using False take_old_before_sep [of old "x # xs" c b] notin by auto
    have "replace_scan old new (x # (xs @ c # b)) = x # replace_scan old new (xs @ c # b)"
      using f2 by (subst replace_scan.simps(2)) auto
    also have "\<dots> = x # replace_scan old new xs @ c # replace_scan old new b"
      using 2(2) [OF False notin] by simp
    also have "\<dots> = replace_scan old new (x # xs) @ c # replace_scan old new b"
      using False by (auto simp: replace_scan.simps(2) [of old new x xs])
    finally show ?thesis by simp
  qed
qed

lemma replace_scan_seps:
  "set sep \<inter> set old = {} \<Longrightarrow> sep \<noteq> [] \<Longrightarrow>
   replace_scan old new (a @ sep @ b) = replace_scan old new a @ sep @ replace_scan old new b"
proof -
  assume d: "set sep \<inter> set old = {}" and ne: "sep \<noteq> []"
  then obtain c cs where s: "sep = c # cs" by (cases sep) auto
  with d have c: "c \<notin> set old" and cs: "set cs \<inter> set old = {}" by auto
  show ?thesis
    using replace_scan_sep [OF c, of new a "cs @ b"] replace_scan_skips [OF cs, of new b]
    by (simp add: s)
qed


lemmas tex_consts = COLUMN_SEPARATOR_def NEW_ROW_SYMBOL_def TABLE_HORIZONTAL_LINE_def
  TEXT_BEFORE_TABLE_def TEXT_AFTER_TABLE_def TABLE_def TABLE_SCHEMA_def TABLE_ROWS_LIST_def
  TABLE_TITLE_def

lemma tex_table_closed:
  "tex_table_of tex_rows schema tex_table_title =
     bsl @ ''begin{tabular}{'' @ replace_scan TABLE_TITLE tex_table_title schema
     @ ''}\<newline>'' @ bsl @ ''hline\<newline>'' @ tex_table_title
     @ bsl @ bsl @ '' '' @ bsl @ ''hline\<newline>''
     @ replace_scan TABLE_TITLE tex_table_title (replace_scan TABLE_SCHEMA schema tex_rows)
     @ '' '' @ bsl @ bsl @ '' '' @ bsl @ ''hline\<newline>'' @ bsl @ ''end{tabular}\<newline>''"
  by (simp add: tex_table_of_def replace_def TEX_TABLE_PATTERN_def tex_consts
      replace_scan.simps(2) replace_scan_sep)


lemma tex_document_closed:
  "tex_document_of text_before tex_table text_after =
     bsl @ ''documentclass{article}\<newline>''
     @ bsl @ ''usepackage[a4paper, portrait, margin=1in]{geometry}\<newline>''
     @ bsl @ ''usepackage[utf8x]{inputenc}\<newline>''
     @ bsl @ ''usepackage{tabularx}\<newline>''
     @ bsl @ ''begin{document}\<newline>''
     @ replace_scan TEXT_AFTER_TABLE text_after (replace_scan TABLE tex_table text_before)
     @ ''\<newline>\<newline>''
     @ replace_scan TEXT_AFTER_TABLE text_after tex_table
     @ ''\<newline>'' @ text_after @ ''\<newline>'' @ bsl @ ''end{document}''"
  by (simp add: tex_document_of_def replace_def TEX_DOCUMENT_PATTERN_def tex_consts
      replace_scan.simps(2) replace_scan_sep)

lemma replace_scan_join:
  "set sep \<inter> set old = {} \<Longrightarrow> sep \<noteq> [] \<Longrightarrow>
   replace_scan old new (join_py sep xs) = join_py sep (map (replace_scan old new) xs)"
  by (induction sep xs rule: join_py.induct) (simp_all add: replace_scan_seps)

lemma join_py_terminated:
  "xs \<noteq> [] \<Longrightarrow> join_py sep xs @ sep = concat (map (\<lambda>x. x @ sep) xs)"
  by (induction sep xs rule: join_py.induct) simp_all

lemma cell_width_floor: "1 \<le> n \<Longrightarrow> cell_width n = Inr (15 div n)"
proof -
  assume n: "1 \<le> n"
  have "\<lfloor>real_of_int 15 / real_of_int n\<rfloor> = 15 div n"
    by (rule floor_divide_of_int_eq)
  moreover from n have "0 \<le> real_of_int 15 / real_of_int n" by simp
  ultimately show ?thesis using n
    by (simp add: cell_width_def true_div_def table_width_cm_def int_of_float_def)
qed

lemma tex_schema_eq:
  "1 \<le> n \<Longrightarrow>
   tex_schema n = Inr (concat (replicate (nat n) (''|p{'' @ str_int (15 div n) @ ''cm}'')) @ ''|'')"
  by (simp add: tex_schema_def cell_width_floor get_schema_def str_mul_def)


lemma replace_scan_no_start:
  "old \<noteq> [] \<Longrightarrow> hd old \<notin> set s \<Longrightarrow> replace_scan old new s = s"
proof (induction s)
  case Nil
  show ?case by simp
next
  case (Cons c cs)
  then have "take (length old) (c # cs) \<noteq> old"
    by (cases old) auto
  with Cons show ?case by (simp add: replace_scan.simps(2))
qed

lemma rendered_line_plain:
  "CHR ''_'' \<notin> set line \<Longrightarrow> rendered_line schema tex_table_title text_after line = line"
  by (simp add: rendered_line_def replace_def tex_consts replace_scan_no_start)

lemma set_join_py: "set (join_py sep xs) \<subseteq> set sep \<union> (\<Union>x \<in> set xs. set x)"
  by (induction sep xs rule: join_py.induct) auto

lemma join_columns_plain:
  "\<forall>cell \<in> set row. CHR ''_'' \<notin> set cell \<Longrightarrow> CHR ''_'' \<notin> set (join_py column_join row)"
proof
  assume a: "\<forall>cell \<in> set row. CHR ''_'' \<notin> set cell"
    and b: "CHR ''_'' \<in> set (join_py column_join row)"
  from b set_join_py [of column_join row]
  have "CHR ''_'' \<in> set column_join \<or> (\<exists>cell \<in> set row. CHR ''_'' \<in> set cell)" by auto
  with a show False by (auto simp: column_join_def COLUMN_SEPARATOR_def)
qed

lemma set_str_mul: "set (str_mul s n) \<subseteq> set s"
  by (auto simp: str_mul_def)

lemma schema_plain:
  assumes "1 \<le> n" and "tex_schema n = Inr schema"
  shows "CHR ''_'' \<notin> set schema"
proof -
  have d: "CHR ''_'' \<notin> set (digits k)" for k
    using set_digits [of k] by auto
  from assms have "schema = get_schema n (''p{'' @ str_int (15 div n) @ ''cm}'')"
    by (simp add: tex_schema_def cell_width_floor)
  moreover from assms(1) have "0 \<le> 15 div n"
    by (simp add: pos_imp_zdiv_nonneg_iff)
  ultimately show ?thesis
    using set_str_mul [of "''|'' @ ''p{'' @ str_int (15 div n) @ ''cm}''" n] d
    by (auto simp: get_schema_def str_int_def)
qed

lemma generate_tex_code_result:
  assumes "table_title_data \<noteq> []"
  shows "\<exists>schema. tex_schema (int (length table_title_data)) = Inr schema
     \<and> generate_tex_code table_data table_title_data w =
         Inr (tex_document_of (lorem_paragraphs w 0)
                (tex_table_of (tex_rows_of table_data) schema
                   (join_py column_join table_title_data))
                (lorem_paragraphs w 1),
              w\<lparr>lorem_paragraphs := \<lambda>i. lorem_paragraphs w (Suc (Suc i))\<rparr>)"
proof -
  from assms have "1 \<le> int (length table_title_data)"
    by (cases table_title_data) simp_all
  from tex_schema_eq [OF this] show ?thesis
    by (simp add: generate_tex_code_def lorem_paragraph_def)
qed

lemma tex_rows_rendered:
  "replace_scan TEXT_AFTER_TABLE text_after
     (replace_scan TABLE_TITLE tex_table_title
       (replace_scan TABLE_SCHEMA schema (tex_rows_of table_data))) =
   join_py row_join
     (map (\<lambda>row. rendered_line schema tex_table_title text_after (join_py column_join row))
        table_data)"
proof -
  have r: "row_join \<noteq> []" by (simp add: row_join_def)
  have "set row_join \<inter> set TABLE_SCHEMA = {}"
    and "set row_join \<inter> set TABLE_TITLE = {}"
    and "set row_join \<inter> set TEXT_AFTER_TABLE = {}"
    by (simp_all add: row_join_def tex_consts)
  then show ?thesis
    by (simp add: tex_rows_of_def replace_scan_join r rendered_line_def replace_def
        tex_consts comp_def)
qed

lemma tex_table_in_document:
  "replace_scan TEXT_AFTER_TABLE text_after (tex_table_of tex_rows schema tex_table_title) =
     bsl @ ''begin{tabular}{''
     @ replace_scan TEXT_AFTER_TABLE text_after (replace_scan TABLE_TITLE tex_table_title schema)
     @ ''}\<newline>'' @ bsl @ ''hline\<newline>''
     @ replace_scan TEXT_AFTER_TABLE text_after tex_table_title
     @ bsl @ bsl @ '' '' @ bsl @ ''hline\<newline>''
     @ replace_scan TEXT_AFTER_TABLE text_after
         (replace_scan TABLE_TITLE tex_table_title (replace_scan TABLE_SCHEMA schema tex_rows))
     @ '' '' @ bsl @ bsl @ '' '' @ bsl @ ''hline\<newline>'' @ bsl @ ''end{tabular}\<newline>''"
  unfolding tex_table_closed
  by (simp add: TEXT_AFTER_TABLE_def replace_scan.simps(2) replace_scan_sep)


lemma generate_tex_code_document:
  assumes "table_title_data \<noteq> []"
  shows "\<exists>schema pre post.
       tex_schema (int (length table_title_data)) = Inr schema
     \<and> generate_tex_code table_data table_title_data w =
         Inr (pre @ bsl @ ''begin{tabular}{'' @ schema @ ''}\<newline>'' @ bsl @ ''hline\<newline>''
              @ replace_scan TEXT_AFTER_TABLE (lorem_paragraphs w 1)
                  (join_py column_join table_title_data)
              @ bsl @ bsl @ '' '' @ bsl @ ''hline\<newline>''
              @ join_py row_join
                  (map (\<lambda>row. rendered_line schema (join_py column_join table_title_data)
                           (lorem_paragraphs w 1) (join_py column_join row))
                     table_data)
              @ row_join @ bsl @ ''end{tabular}\<newline>'' @ post,
              w\<lparr>lorem_paragraphs := \<lambda>i. lorem_paragraphs w (Suc (Suc i))\<rparr>)"
proof -
  from generate_tex_code_result [OF assms, of table_data w] obtain schema where
    s: "tex_schema (int (length table_title_data)) = Inr schema" and
    g: "generate_tex_code table_data table_title_data w =
         Inr (tex_document_of (lorem_paragraphs w 0)
                (tex_table_of (tex_rows_of table_data) schema
                   (join_py column_join table_title_data))
                (lorem_paragraphs w 1),
              w\<lparr>lorem_paragraphs := \<lambda>i. lorem_paragraphs w (Suc (Suc i))\<rparr>)"
    by blast
  from assms have n: "1 \<le> int (length table_title_data)"
    by (cases table_title_data) simp_all
  have plain: "CHR ''_'' \<notin> set schema" by (rule schema_plain [OF n s])
  then have s1: "replace_scan TABLE_TITLE tl schema = schema"
    and s2: "replace_scan TEXT_AFTER_TABLE ta schema = schema" for tl ta
    by (simp_all add: tex_consts replace_scan_no_start)
  let ?pre = "bsl @ ''documentclass{article}\<newline>''
     @ bsl @ ''usepackage[a4paper, portrait, margin=1in]{geometry}\<newline>''
     @ bsl @ ''usepackage[utf8x]{inputenc}\<newline>''
     @ bsl @ ''usepackage{tabularx}\<newline>''
     @ bsl @ ''begin{document}\<newline>''
     @ replace_scan TEXT_AFTER_TABLE (lorem_paragraphs w 1)
         (replace_scan TABLE
            (tex_table_of (tex_rows_of table_data) schema (join_py column_join table_title_data))
            (lorem_paragraphs w 0))
     @ ''\<newline>\<newline>''"
  let ?post = "''\<newline>'' @ lorem_paragraphs w 1 @ ''\<newline>'' @ bsl @ ''end{document}''"
  have "generate_tex_code table_data table_title_data w =
         Inr (?pre @ bsl @ ''begin{tabular}{'' @ schema @ ''}\<newline>'' @ bsl @ ''hline\<newline>''
              @ replace_scan TEXT_AFTER_TABLE (lorem_paragraphs w 1)
                  (join_py column_join table_title_data)
              @ bsl @ bsl @ '' '' @ bsl @ ''hline\<newline>''
              @ join_py row_join
                  (map (\<lambda>row. rendered_line schema (join_py column_join table_title_data)
                           (lorem_paragraphs w 1) (join_py column_join row))
                     table_data)
              @ row_join @ bsl @ ''end{tabular}\<newline>'' @ ?post,
              w\<lparr>lorem_paragraphs := \<lambda>i. lorem_paragraphs w (Suc (Suc i))\<rparr>)"
    unfolding g tex_document_closed tex_table_in_document tex_rows_rendered s1 s2
    by (simp add: row_join_def NEW_ROW_SYMBOL_def TABLE_HORIZONTAL_LINE_def)
  with s show ?thesis by blast
qed

text \<open>
  C4. For every column count of at least 1 (the driver uses 2 to 7) the cell width is
  \<open>15 div column_count\<close>, the floor of the quotient, and the schema is the column
  specification \<open>|p{WIDTHcm}\<close> once per column, closed by a last \<open>|\<close>. For three
  columns the schema is \<open>|p{5cm}|p{5cm}|p{5cm}|\<close>; for seven columns the width is 2.
\<close>

theorem column_schema_width:
  "(1 \<le> column_count \<longrightarrow>
      cell_width column_count = Inr (15 div column_count)
    \<and> tex_schema column_count =
        Inr (concat (replicate (nat column_count)
               (''|p{'' @ str_int (15 div column_count) @ ''cm}'')) @ ''|''))
   \<and> tex_schema 3 = Inr ''|p{5cm}|p{5cm}|p{5cm}|''
   \<and> cell_width 7 = Inr 2"
proof -
  have "tex_schema 3 = Inr ''|p{5cm}|p{5cm}|p{5cm}|''"
    by (simp add: tex_schema_eq str_int_def digits.simps digit_char_def numeral_3_eq_3)
  moreover have "cell_width 7 = Inr 2"
    by (simp add: cell_width_floor)
  ultimately show ?thesis
    by (simp add: cell_width_floor tex_schema_eq)
qed

theorem column_schema_width_witness:
  "(1::int) \<le> 5
   \<and> cell_width 5 = Inr 3
   \<and> tex_schema 5 = Inr ''|p{3cm}|p{3cm}|p{3cm}|p{3cm}|p{3cm}|''"
  using column_schema_width [of 5]
  by (simp add: str_int_def digits.simps digit_char_def eval_nat_numeral)


lemma join_rows_terminated:
  "join_py row_join ls @ row_join @ rest =
     concat (map (\<lambda>l. l @ row_join) ls) @ (if ls = [] then row_join else []) @ rest"
  using join_py_terminated [of ls row_join] by (cases "ls = []") (simp_all add: append_assoc [symmetric] del: append_assoc)

text \<open>
  C6. For every table and every non-empty title row, \<open>generate_tex_code\<close> returns a
  document in which the lines of the data rows stand one after the other, in order,
  each of them, the last one included, followed at once by the row terminator: a
  space, the line break token of two backslashes, a space, the \<open>hline\<close> token and a
  line feed. A row line is the row's cells joined by \<open> & \<close>, as the later
  substitutions leave it, and it is left unchanged when no cell of the row contains an
  underscore.
\<close>

theorem data_rows_terminated:
  assumes "table_title_data \<noteq> []"
  shows "\<exists>doc w' schema pre post.
       tex_schema (int (length table_title_data)) = Inr schema
     \<and> generate_tex_code table_data table_title_data w = Inr (doc, w')
     \<and> doc = pre
         @ concat (map (\<lambda>row.
              rendered_line schema (join_py '' & '' table_title_data)
                (lorem_paragraphs w 1) (join_py '' & '' row)
              @ '' '' @ bsl @ bsl @ '' '' @ bsl @ ''hline'' @ ''\<newline>'') table_data)
         @ post
     \<and> list_all (\<lambda>row. list_all (\<lambda>cell. CHR ''_'' \<notin> set cell) row \<longrightarrow>
          rendered_line schema (join_py '' & '' table_title_data)
            (lorem_paragraphs w 1) (join_py '' & '' row) = join_py '' & '' row) table_data"
proof -
  let ?line = "\<lambda>row. rendered_line schema (join_py column_join table_title_data)
                           (lorem_paragraphs w 1) (join_py column_join row)"
  from generate_tex_code_document [OF assms, of table_data w]
  obtain schema pre post where
    s: "tex_schema (int (length table_title_data)) = Inr schema" and
    g: "generate_tex_code table_data table_title_data w =
         Inr (pre @ bsl @ ''begin{tabular}{'' @ schema @ ''}\<newline>'' @ bsl @ ''hline\<newline>''
              @ replace_scan TEXT_AFTER_TABLE (lorem_paragraphs w 1)
                  (join_py column_join table_title_data)
              @ bsl @ bsl @ '' '' @ bsl @ ''hline\<newline>''
              @ join_py row_join
                  (map (\<lambda>row. rendered_line schema (join_py column_join table_title_data)
                           (lorem_paragraphs w 1) (join_py column_join row))
                     table_data)
              @ row_join @ bsl @ ''end{tabular}\<newline>'' @ post,
              w\<lparr>lorem_paragraphs := \<lambda>i. lorem_paragraphs w (Suc (Suc i))\<rparr>)"
    by blast
  let ?line = "\<lambda>row. rendered_line schema (join_py column_join table_title_data)
                           (lorem_paragraphs w 1) (join_py column_join row)"
  let ?rest = "bsl @ ''end{tabular}\<newline>'' @ post"
  let ?pre = "pre @ bsl @ ''begin{tabular}{'' @ schema @ ''}\<newline>'' @ bsl @ ''hline\<newline>''
              @ replace_scan TEXT_AFTER_TABLE (lorem_paragraphs w 1)
                  (join_py column_join table_title_data)
              @ bsl @ bsl @ '' '' @ bsl @ ''hline\<newline>''"
  let ?post = "(if map ?line table_data = [] then row_join else []) @ ?rest"
  have e: "join_py row_join (map ?line table_data) @ row_join @ ?rest =
      concat (map (\<lambda>row. ?line row @ row_join) table_data) @ ?post"
    using join_rows_terminated [of "map ?line table_data" ?rest]
    by (simp only: map_map comp_def)
  have d: "generate_tex_code table_data table_title_data w =
      Inr (?pre @ concat (map (\<lambda>row. ?line row @ row_join) table_data) @ ?post,
           w\<lparr>lorem_paragraphs := \<lambda>i. lorem_paragraphs w (Suc (Suc i))\<rparr>)"
    unfolding g e by (simp only: append_assoc)
  have p: "list_all (\<lambda>row. list_all (\<lambda>cell. CHR ''_'' \<notin> set cell) row \<longrightarrow>
      ?line row = join_py column_join row) table_data"
    using join_columns_plain rendered_line_plain
    by (simp add: list_all_iff)
  have cj: "column_join = '' & ''" by (simp add: column_join_def COLUMN_SEPARATOR_def)
  have rj: "row_join = '' '' @ bsl @ bsl @ '' '' @ bsl @ ''hline'' @ ''\<newline>''"
    by (simp add: row_join_def NEW_ROW_SYMBOL_def TABLE_HORIZONTAL_LINE_def)
  from s d p show ?thesis unfolding cj rj by blast
qed

theorem data_rows_terminated_witness:
  "[''title0'', ''title1''] \<noteq> []
   \<and> (\<exists>doc w' pre post.
        generate_tex_code [[''a'', ''b''], [''c'', ''d'']] [''title0'', ''title1''] demo_world
          = Inr (doc, w')
      \<and> doc = pre @ ''a & b '' @ bsl @ bsl @ '' '' @ bsl @ ''hline\<newline>''
                  @ ''c & d '' @ bsl @ bsl @ '' '' @ bsl @ ''hline\<newline>'' @ post)"
proof -
  have h: "[''title0'', ''title1''] \<noteq> ([] :: string list)" by simp
  from data_rows_terminated [OF h, of "[[''a'', ''b''], [''c'', ''d'']]" demo_world]
  obtain doc w' schema pre post where
    g: "generate_tex_code [[''a'', ''b''], [''c'', ''d'']] [''title0'', ''title1''] demo_world
          = Inr (doc, w')" and
    d: "doc = pre
         @ concat (map (\<lambda>row.
              rendered_line schema (join_py '' & '' [''title0'', ''title1''])
                (lorem_paragraphs demo_world 1) (join_py '' & '' row)
              @ '' '' @ bsl @ bsl @ '' '' @ bsl @ ''hline'' @ ''\<newline>'')
             [[''a'', ''b''], [''c'', ''d'']])
         @ post" and
    p: "list_all (\<lambda>row. list_all (\<lambda>cell. CHR ''_'' \<notin> set cell) row \<longrightarrow>
          rendered_line schema (join_py '' & '' [''title0'', ''title1''])
            (lorem_paragraphs demo_world 1) (join_py '' & '' row) = join_py '' & '' row)
          [[''a'', ''b''], [''c'', ''d'']]"
    by blast
  from p have "rendered_line schema (join_py '' & '' [''title0'', ''title1''])
        (lorem_paragraphs demo_world 1) (join_py '' & '' [''a'', ''b'']) = ''a & b''"
    and "rendered_line schema (join_py '' & '' [''title0'', ''title1''])
        (lorem_paragraphs demo_world 1) (join_py '' & '' [''c'', ''d'']) = ''c & d''"
    by simp_all
  with d have "doc = pre @ ''a & b '' @ bsl @ bsl @ '' '' @ bsl @ ''hline\<newline>''
                  @ ''c & d '' @ bsl @ bsl @ '' '' @ bsl @ ''hline\<newline>'' @ post"
    by simp
  with g h show ?thesis by blast
qed

text \<open>
  C10. With an empty title row \<open>generate_tex_code\<close> ends in the division by zero
  error, whatever the table. With a non-empty title row it returns a document, and the
  column schema of that document has one column specification per entry of the title
  row, of width 15 divided by the length of the title row, whatever the rows of the
  table are.
\<close>

theorem generate_tex_code_needs_title:
  "generate_tex_code table_data [] w = Inl ZeroDivisionError
   \<and> (table_title_data \<noteq> [] \<longrightarrow>
        (\<exists>doc w' pre post.
           generate_tex_code table_data table_title_data w = Inr (doc, w')
         \<and> doc = pre @ bsl @ ''begin{tabular}{''
             @ concat (replicate (length table_title_data)
                 (''|p{'' @ str_int (15 div int (length table_title_data)) @ ''cm}''))
             @ ''|}'' @ post))"
proof -
  have z: "generate_tex_code table_data [] w = Inl ZeroDivisionError"
    by (simp add: generate_tex_code_def lorem_paragraph_def tex_schema_def cell_width_def
        true_div_def)
  have "\<exists>doc w' pre post.
           generate_tex_code table_data table_title_data w = Inr (doc, w')
         \<and> doc = pre @ bsl @ ''begin{tabular}{''
             @ concat (replicate (length table_title_data)
                 (''|p{'' @ str_int (15 div int (length table_title_data)) @ ''cm}''))
             @ ''|}'' @ post" if t: "table_title_data \<noteq> []"
  proof -
    from t have n: "1 \<le> int (length table_title_data)"
      by (cases table_title_data) simp_all
    from generate_tex_code_document [OF t, of table_data w] tex_schema_eq [OF n]
    show ?thesis by fastforce
  qed
  with z show ?thesis by blast
qed

theorem generate_tex_code_needs_title_witness:
  "generate_tex_code [[''a'']] [] demo_world = Inl ZeroDivisionError
   \<and> [''title0'', ''title1''] \<noteq> []
   \<and> (\<exists>doc w' pre post.
        generate_tex_code [[''a'']] [''title0'', ''title1''] demo_world = Inr (doc, w')
      \<and> doc = pre @ bsl @ ''begin{tabular}{|p{7cm}|p{7cm}|}'' @ post)"
  using generate_tex_code_needs_title [of "[[''a'']]" demo_world "[''title0'', ''title1'']"]
  by (simp add: str_int_def digits.simps digit_char_def numeral_2_eq_2)

section \<open>The sweep of the driver\<close>






































section \<open>Round trip through the CSV file\<close>

declare parse_process_char.simps [simp del]

lemma events_plain:
  "\<not> csv_needs_quotes x \<Longrightarrow>
   line_events b (x @ y) = map Ch x @ line_events (b \<or> x \<noteq> []) y"
  by (induction x arbitrary: b) (auto simp: csv_needs_quotes_def)

lemma events_cr_lf:
  "line_events b (CR # LF # z) = Ch CR # Ch LF # EOL # line_events False z"
  by simp

lemma events_cr:
  "z \<noteq> [] \<Longrightarrow> hd z \<noteq> LF \<Longrightarrow> line_events b (CR # z) = Ch CR # EOL # line_events False z"
  by (cases z) auto

lemma in_field_run:
  "parser_state p = IN_FIELD \<Longrightarrow> \<not> csv_needs_quotes f \<Longrightarrow>
   reader_rows p (map Ch f @ es) = reader_rows (p\<lparr>parser_field := parser_field p @ f\<rparr>) es"
proof (induction f arbitrary: p)
  case Nil
  then show ?case by simp
next
  case (Cons c cs)
  let ?p = "p\<lparr>parser_field := parser_field p @ [c]\<rparr>"
  from Cons.prems have c: "c \<noteq> CHR '',''" "c \<noteq> CHR ''|''" "c \<noteq> CR" "c \<noteq> LF"
    and cs: "\<not> csv_needs_quotes cs"
    by (auto simp: csv_needs_quotes_def)
  from Cons.prems(1) c have "parse_process_char p (Ch c) = Some ?p"
    by (simp add: parse_process_char.simps parse_add_char_def)
  then have "reader_rows p (map Ch (c # cs) @ es) = reader_rows ?p (map Ch cs @ es)"
    by simp
  also have "\<dots> = reader_rows (?p\<lparr>parser_field := parser_field ?p @ cs\<rparr>) es"
    using Cons.prems(1) by (intro Cons.IH cs) simp
  finally show ?case by simp
qed

lemma double_quotes_head:
  "cs \<noteq> [] \<Longrightarrow> hd cs \<noteq> LF \<Longrightarrow> hd (csv_double_quotes cs @ z) \<noteq> LF \<and> csv_double_quotes cs @ z \<noteq> []"
  by (cases cs) auto

lemma quoted_body_run:
  "parser_state p = IN_QUOTED_FIELD \<Longrightarrow>
   reader_rows p (line_events b (csv_double_quotes f @ CHR ''|'' # y)) =
   reader_rows (p\<lparr>parser_state := QUOTE_IN_QUOTED_FIELD, parser_field := parser_field p @ f\<rparr>)
     (line_events True y)"
proof (induction f arbitrary: p b rule: length_induct)
  case (1 f)
  note st = \<open>parser_state p = IN_QUOTED_FIELD\<close>
  have ih: "reader_rows q (line_events b' (csv_double_quotes g @ CHR ''|'' # y)) =
      reader_rows (q\<lparr>parser_state := QUOTE_IN_QUOTED_FIELD, parser_field := parser_field q @ g\<rparr>)
        (line_events True y)"
    if "length g < length f" and "parser_state q = IN_QUOTED_FIELD" for g q b'
    using 1(1) that by blast
  have add: "parse_process_char q (Ch c) = Some (q\<lparr>parser_field := parser_field q @ [c]\<rparr>)"
    if "parser_state q = IN_QUOTED_FIELD" and "c \<noteq> CHR ''|''" for q c
    using that by (simp add: parse_process_char.simps parse_add_char_def)
  have eol: "parse_process_char q EOL = Some q" if "parser_state q = IN_QUOTED_FIELD" for q
    using that by (simp add: parse_process_char.simps)
  show ?case
  proof (cases f)
    case Nil
    from st have "parse_process_char p (Ch (CHR ''|'')) = Some (p\<lparr>parser_state := QUOTE_IN_QUOTED_FIELD\<rparr>)"
      by (simp add: parse_process_char.simps)
    with Nil show ?thesis by simp
  next
    case (Cons c cs)
    let ?p = "p\<lparr>parser_field := parser_field p @ [c]\<rparr>"
    have st': "parser_state ?p = IN_QUOTED_FIELD" using st by simp
    have fin: "reader_rows ?p (line_events b' (csv_double_quotes cs @ CHR ''|'' # y)) =
        reader_rows (p\<lparr>parser_state := QUOTE_IN_QUOTED_FIELD, parser_field := parser_field p @ f\<rparr>)
          (line_events True y)" for b'
      using ih [of cs ?p b'] st' Cons by simp
    consider (quote) "c = CHR ''|''" | (lf) "c = LF" | (crlf) cs' where "c = CR" "cs = LF # cs'"
      | (cr) "c = CR" "cs = [] \<or> hd cs \<noteq> LF" | (other) "c \<noteq> CHR ''|''" "c \<noteq> LF" "c \<noteq> CR"
      by (cases cs) auto
    then show ?thesis
    proof cases
      case quote
      from st have s1: "parse_process_char p (Ch (CHR ''|'')) = Some (p\<lparr>parser_state := QUOTE_IN_QUOTED_FIELD\<rparr>)"
        by (simp add: parse_process_char.simps)
      have s2: "parse_process_char (p\<lparr>parser_state := QUOTE_IN_QUOTED_FIELD\<rparr>) (Ch (CHR ''|'')) = Some ?p"
        using st quote by (simp add: parse_process_char.simps parse_add_char_def)
      show ?thesis using quote Cons s1 s2 fin [of True] by simp
    next
      case lf
      with add [OF st, of c] eol [OF st'] st fin [of False] Cons show ?thesis by simp
    next
      case crlf
      let ?q = "p\<lparr>parser_field := parser_field p @ [CR, LF]\<rparr>"
      have stq: "parser_state ?q = IN_QUOTED_FIELD" using st by simp
      have a1: "parse_process_char p (Ch CR) = Some (p\<lparr>parser_field := parser_field p @ [CR]\<rparr>)"
        using add [OF st, of CR] by simp
      have a2: "parse_process_char (p\<lparr>parser_field := parser_field p @ [CR]\<rparr>) (Ch LF) = Some ?q"
        using add [of "p\<lparr>parser_field := parser_field p @ [CR]\<rparr>" LF] st by simp
      have "reader_rows ?q (line_events False (csv_double_quotes cs' @ CHR ''|'' # y)) =
        reader_rows (?q\<lparr>parser_state := QUOTE_IN_QUOTED_FIELD, parser_field := parser_field ?q @ cs'\<rparr>)
          (line_events True y)"
        using ih [of cs' ?q False] stq Cons crlf by simp
      then show ?thesis using crlf Cons a1 a2 eol [OF stq] st by simp
    next
      case cr
      have z: "csv_double_quotes cs @ CHR ''|'' # y \<noteq> [] \<and> hd (csv_double_quotes cs @ CHR ''|'' # y) \<noteq> LF"
        using cr(2) double_quotes_head [of cs "CHR ''|'' # y"] by (cases "cs = []") auto
      then have "line_events b (CR # csv_double_quotes cs @ CHR ''|'' # y) =
          Ch CR # EOL # line_events False (csv_double_quotes cs @ CHR ''|'' # y)"
        using events_cr by blast
      with cr add [OF st, of c] eol [OF st'] st fin [of False] Cons show ?thesis by simp
    next
      case other
      with add [OF st, of c] st fin [of True] Cons show ?thesis by simp
    qed
  qed
qed


lemma field_run:
  assumes st: "parser_state p = START_FIELD \<or> parser_state p = START_RECORD"
    and fld: "parser_field p = []"
    and enc: "enc = csv_field f \<or> enc = csv_quoted f"
    and del: "d = CHR '','' \<or> d = CR"
  shows "\<exists>q b'. reader_rows p (line_events b (enc @ d # z)) = reader_rows q (line_events b' (d # z))
      \<and> parser_fields q = parser_fields p \<and> parser_field q = f
      \<and> (parser_state q = IN_FIELD \<or> parser_state q = QUOTE_IN_QUOTED_FIELD
          \<or> (enc = [] \<and> q = p))"
proof (cases "enc = csv_quoted f")
  case True
  let ?p = "p\<lparr>parser_state := IN_QUOTED_FIELD\<rparr>"
  let ?q = "p\<lparr>parser_state := QUOTE_IN_QUOTED_FIELD, parser_field := f\<rparr>"
  from st have "parse_process_char p (Ch (CHR ''|'')) = Some ?p"
    by (auto simp: parse_process_char.simps)
  then have "reader_rows p (line_events b (enc @ d # z)) =
      reader_rows ?p (line_events True (csv_double_quotes f @ CHR ''|'' # d # z))"
    using True by (simp add: csv_quoted_def)
  also have "\<dots> = reader_rows ?q (line_events True (d # z))"
    using quoted_body_run [of ?p True f "d # z"] fld by simp
  finally show ?thesis by (intro exI [of _ ?q] exI [of _ True]) simp
next
  case False
  with enc have e: "enc = f" and plain: "\<not> csv_needs_quotes f"
    by (auto simp: csv_field_def split: if_splits)
  show ?thesis
  proof (cases f)
    case Nil
    with e fld have "reader_rows p (line_events b (enc @ d # z)) = reader_rows p (line_events b (d # z))
      \<and> parser_fields p = parser_fields p \<and> parser_field p = f \<and> enc = [] \<and> p = p"
      by simp
    then show ?thesis by blast
  next
    case (Cons c cs)
    let ?p = "p\<lparr>parser_state := IN_FIELD, parser_field := [c]\<rparr>"
    let ?q = "p\<lparr>parser_state := IN_FIELD, parser_field := f\<rparr>"
    from plain Cons have c: "c \<noteq> CHR '',''" "c \<noteq> CHR ''|''" "c \<noteq> CR" "c \<noteq> LF"
      and cs: "\<not> csv_needs_quotes cs"
      by (auto simp: csv_needs_quotes_def)
    from st c fld have "parse_process_char p (Ch c) = Some ?p"
      by (auto simp: parse_process_char.simps parse_add_char_def)
    then have "reader_rows p (line_events b (enc @ d # z)) =
        reader_rows ?p (map Ch cs @ line_events True (d # z))"
      using e Cons events_plain [OF plain, of b "d # z"] by simp
    also have "\<dots> = reader_rows ?q (line_events True (d # z))"
      using in_field_run [of ?p cs "line_events True (d # z)"] cs Cons by simp
    finally show ?thesis by (intro exI [of _ ?q] exI [of _ True]) simp
  qed
qed

lemma field_then_comma:
  assumes "parser_state p = START_FIELD \<or> parser_state p = START_RECORD"
    and "parser_field p = []"
    and "enc = csv_field f \<or> enc = csv_quoted f"
  shows "reader_rows p (line_events b (enc @ CHR '','' # z)) =
     reader_rows (p\<lparr>parser_state := START_FIELD, parser_fields := parser_fields p @ [f]\<rparr>)
       (line_events True z)"
proof -
  from field_run [OF assms, of "CHR '',''" b z] obtain q b' where
    r: "reader_rows p (line_events b (enc @ CHR '','' # z)) = reader_rows q (line_events b' (CHR '','' # z))"
    and q: "parser_fields q = parser_fields p" "parser_field q = f"
    and s: "parser_state q = IN_FIELD \<or> parser_state q = QUOTE_IN_QUOTED_FIELD \<or> (enc = [] \<and> q = p)"
    by blast
  from s assms(1) have "parser_state q = IN_FIELD \<or> parser_state q = QUOTE_IN_QUOTED_FIELD
      \<or> parser_state q = START_FIELD \<or> parser_state q = START_RECORD" by auto
  then have "parse_process_char q (Ch (CHR '','')) =
      Some (q\<lparr>parser_state := START_FIELD, parser_fields := parser_fields q @ [parser_field q],
              parser_field := []\<rparr>)"
    by (auto simp: parse_process_char.simps parse_save_field_def)
  moreover have "q\<lparr>parser_state := START_FIELD, parser_fields := parser_fields q @ [parser_field q],
      parser_field := []\<rparr> = p\<lparr>parser_state := START_FIELD, parser_fields := parser_fields p @ [f]\<rparr>"
    using s q assms(2)
    by (cases q; cases p) auto
  ultimately show ?thesis using r by simp
qed

lemma field_then_crlf:
  assumes "parser_state p = START_FIELD \<or> parser_state p = START_RECORD"
    and "parser_field p = []"
    and "enc = csv_field f \<or> enc = csv_quoted f"
    and "parser_state p = START_RECORD \<longrightarrow> enc \<noteq> []"
  shows "reader_rows p (line_events b (enc @ CR # LF # z)) =
     map_option ((#) (parser_fields p @ [f])) (reader_rows parse_reset (line_events False z))"
proof -
  from field_run [OF assms(1-3), of CR b "LF # z"] obtain q b' where
    r: "reader_rows p (line_events b (enc @ CR # LF # z)) = reader_rows q (line_events b' (CR # LF # z))"
    and q: "parser_fields q = parser_fields p" "parser_field q = f"
    and s: "parser_state q = IN_FIELD \<or> parser_state q = QUOTE_IN_QUOTED_FIELD \<or> (enc = [] \<and> q = p)"
    by blast
  let ?q1 = "q\<lparr>parser_state := EAT_CRNL, parser_fields := parser_fields q @ [parser_field q],
      parser_field := []\<rparr>"
  from s assms(1,4) have "parser_state q = IN_FIELD \<or> parser_state q = QUOTE_IN_QUOTED_FIELD
      \<or> parser_state q = START_FIELD" by auto
  then have s1: "parse_process_char q (Ch CR) = Some ?q1"
    by (auto simp: parse_process_char.simps parse_save_field_def end_of_field_def)
  have s2: "parse_process_char ?q1 (Ch LF) = Some ?q1"
    by (simp add: parse_process_char.simps)
  have s3: "parse_process_char ?q1 EOL = Some (?q1\<lparr>parser_state := START_RECORD\<rparr>)"
    by (simp add: parse_process_char.simps)
  show ?thesis
    unfolding r events_cr_lf
    using s1 s2 s3 q by (simp add: map_option_case split: option.split)
qed

lemma row_run:
  assumes "fs \<noteq> []"
    and "parser_state p = START_FIELD \<or> (parser_state p = START_RECORD \<and> fs \<noteq> [[]])"
    and "parser_field p = []"
  shows "reader_rows p (line_events b (join_py '','' (map csv_field fs) @ CR # LF # z)) =
     map_option ((#) (parser_fields p @ fs)) (reader_rows parse_reset (line_events False z))"
  using assms
proof (induction fs arbitrary: p b)
  case Nil
  then show ?case by simp
next
  case (Cons f gs)
  show ?case
  proof (cases gs)
    case Nil
    have "parser_state p = START_RECORD \<longrightarrow> csv_field f \<noteq> []"
      using Cons.prems(2) Nil by (auto simp: csv_field_def csv_quoted_def)
    with field_then_crlf [of p "csv_field f" f b z] Cons.prems Nil show ?thesis by auto
  next
    case (Cons g hs)
    let ?p = "p\<lparr>parser_state := START_FIELD, parser_fields := parser_fields p @ [f]\<rparr>"
    have "reader_rows p (line_events b (join_py '','' (map csv_field (f # gs)) @ CR # LF # z)) =
        reader_rows ?p (line_events True (join_py '','' (map csv_field gs) @ CR # LF # z))"
      using field_then_comma [of p "csv_field f" f b "join_py '','' (map csv_field gs) @ CR # LF # z"]
        Cons.prems Cons by auto
    also have "\<dots> = map_option ((#) (parser_fields ?p @ gs))
        (reader_rows parse_reset (line_events False z))"
      using Cons.prems Cons by (intro Cons.IH) simp_all
    finally show ?thesis by simp
  qed
qed

lemma writerow_run:
  "reader_rows parse_reset (line_events False (csv_writerow row @ z)) =
     map_option ((#) row) (reader_rows parse_reset (line_events False z))"
proof -
  consider (empty) "row = []" | (blank) "row = [[]]" | (fields) "row \<noteq> []" "row \<noteq> [[]]"
    by blast
  then show ?thesis
  proof cases
    case empty
    let ?q = "parse_reset\<lparr>parser_state := EAT_CRNL\<rparr>"
    have "parse_process_char parse_reset (Ch CR) = Some ?q"
      and "parse_process_char ?q (Ch LF) = Some ?q"
      and "parse_process_char ?q EOL = Some parse_reset"
      by (simp_all add: parse_process_char.simps parse_reset_def)
    with empty show ?thesis
      by (simp add: csv_writerow_def map_option_case parse_reset_def split: option.split)
  next
    case blank
    from field_then_crlf [of parse_reset "csv_quoted []" "[]" False z] blank
    show ?thesis
      by (simp add: csv_writerow_def parse_reset_def csv_quoted_def)
  next
    case fields
    from row_run [of row parse_reset False z] fields show ?thesis
      by (simp add: csv_writerow_def parse_reset_def)
  qed
qed

lemma rows_round_trip: "csv_parse (concat (map csv_writerow rows)) = Some rows"
proof -
  have "reader_rows parse_reset (line_events False (concat (map csv_writerow rows))) = Some rows"
  proof (induction rows)
    case Nil
    show ?case by (simp add: parse_reset_def)
  next
    case (Cons r rs)
    then show ?case using writerow_run [of r "concat (map csv_writerow rs)"] by simp
  qed
  then show ?thesis by (simp add: csv_parse_def)
qed

text \<open>
  C2. For every title row and every table, reading the text of the CSV file the driver
  writes (the title row, then the rows of the table, each written by \<open>writerow\<close>) gives
  no error and exactly the title row as first record followed by the rows of the table
  in order, every cell equal to the cell written.
\<close>

theorem csv_round_trip:
  "csv_parse (csv_file table_title table_data) = Some (table_title # table_data)"
  using rows_round_trip [of "table_title # table_data"] by (simp add: csv_file_def)

end
